theory Spec2Isabelle
  imports Complex_Main "HOL-Library.List_Lexorder" "HOL-Library.Sublist"
begin

section \<open>Strings\<close>

text \<open>
  A Python \<^verbatim>\<open>str\<close> is a sequence of Unicode code points; \<^verbatim>\<open>len\<close> counts code points
  and comparison is lexicographic by code point. A string is therefore a list of code
  points, each a natural number. ASCII literals are written through \<open>ascii\<close>.
\<close>

type_synonym pystr = "nat list"

definition ascii :: "string \<Rightarrow> pystr" where
  "ascii s = map of_char s"

text \<open>
  \<^verbatim>\<open>str.isspace\<close> on one code point, which is also what \<^verbatim>\<open>\s\<close> matches in a
  \<^verbatim>\<open>str\<close> pattern of \<^verbatim>\<open>re\<close> and what \<^verbatim>\<open>str.strip()\<close> removes: the ASCII controls
  TAB, LF, VT, FF, CR, FS, GS, RS, US, the space, and the Unicode white space
  U+0085, U+00A0, U+1680, U+2000 to U+200A, U+2028, U+2029, U+202F, U+205F, U+3000.
\<close>

definition is_space :: "nat \<Rightarrow> bool" where
  "is_space c \<longleftrightarrow>
     (9 \<le> c \<and> c \<le> 13) \<or> (28 \<le> c \<and> c \<le> 32) \<or> c = 133 \<or> c = 160 \<or> c = 5760 \<or>
     (8192 \<le> c \<and> c \<le> 8202) \<or> c = 8232 \<or> c = 8233 \<or> c = 8239 \<or> c = 8287 \<or>
     c = 12288"

section \<open>clean\_text\<close>

text \<open>
  \<^verbatim>\<open>
  def clean_text(text):
      text = re.sub(r'[^a-zA-Z0-9.,:/\n\s]', '', text)
      text = re.sub(r'\s+', ' ', text)
      return text.strip()
  \<close>
  \<open>in_class\<close> is the character class \<^verbatim>\<open>[a-zA-Z0-9.,:/\n\s]\<close> whose complement the first
  substitution deletes. \<open>sub_spaces\<close> is the second substitution: scanning from the left,
  each maximal run of characters matching \<^verbatim>\<open>\s\<close> is replaced by one space (U+0020).
  \<open>strip\<close> removes the leading and the trailing white space.
\<close>

definition in_class :: "nat \<Rightarrow> bool" where
  "in_class c \<longleftrightarrow>
     (97 \<le> c \<and> c \<le> 122) \<or> (65 \<le> c \<and> c \<le> 90) \<or> (48 \<le> c \<and> c \<le> 57) \<or>
     c = 46 \<or> c = 44 \<or> c = 58 \<or> c = 47 \<or> c = 10 \<or> is_space c"

function sub_spaces :: "pystr \<Rightarrow> pystr" where
  "sub_spaces [] = []"
| "sub_spaces (c # cs) =
     (if is_space c then 32 # sub_spaces (dropWhile is_space cs) else c # sub_spaces cs)"
  by pat_completeness auto
termination
  by (relation "measure length") (auto simp: less_Suc_eq_le length_dropWhile_le)

definition strip :: "pystr \<Rightarrow> pystr" where
  "strip s = rev (dropWhile is_space (rev (dropWhile is_space s)))"

definition clean_text :: "pystr \<Rightarrow> pystr" where
  "clean_text text = strip (sub_spaces (filter in_class text))"

text \<open>
  The characters named by the specification as the only ones that may survive: ASCII
  letters, ASCII digits, the four punctuation marks, the newline and the ASCII space.
\<close>

definition spec_charset :: "nat \<Rightarrow> bool" where
  "spec_charset c \<longleftrightarrow>
     (65 \<le> c \<and> c \<le> 90) \<or> (97 \<le> c \<and> c \<le> 122) \<or> (48 \<le> c \<and> c \<le> 57) \<or>
     c = 46 \<or> c = 44 \<or> c = 58 \<or> c = 47 \<or> c = 10 \<or> c = 32"

text \<open>
  Two auxiliary predicates for the proofs: no two adjacent white-space characters, and
  the shape of a fully sanitized text.
\<close>

fun no_adj_space :: "pystr \<Rightarrow> bool" where
  "no_adj_space (a # b # xs) \<longleftrightarrow> \<not> (is_space a \<and> is_space b) \<and> no_adj_space (b # xs)"
| "no_adj_space _ \<longleftrightarrow> True"

definition tidy :: "pystr \<Rightarrow> bool" where
  "tidy xs \<longleftrightarrow> list_all (\<lambda>c. c = 32 \<or> (in_class c \<and> \<not> is_space c)) xs \<and> no_adj_space xs"

section \<open>The external world\<close>

text \<open>
  The notebook calls OpenCV, imutils, EasyOCR and the file system. These calls are the
  fields of an environment; \<open>'img\<close> is the type of image arrays.
  \<^item> \<open>listdir\<close>: the names returned by \<^verbatim>\<open>os.listdir(input_folder)\<close>, in any order;
  \<^item> \<open>imread\<close>: \<^verbatim>\<open>cv2.imread\<close>, which returns \<^verbatim>\<open>None\<close> for a file it cannot read or
    decode;
  \<^item> \<open>threshold\<close>: \<^verbatim>\<open>cvtColor\<close>, \<^verbatim>\<open>filter2D\<close> with the 3x3 kernel and
    \<^verbatim>\<open>adaptiveThreshold\<close> (window 21, constant 10);
  \<^item> \<open>minAreaRect_angle\<close>: the angle of \<^verbatim>\<open>cv2.minAreaRect\<close> over the foreground pixels;
  \<^item> \<open>deskew_resize\<close>: \<^verbatim>\<open>getRotationMatrix2D\<close>, \<^verbatim>\<open>warpAffine\<close> and the resize by 1.5;
  \<^item> \<open>rotate_bound\<close>: \<^verbatim>\<open>imutils.rotate_bound\<close>;
  \<^item> \<open>readtext\<close>: \<^verbatim>\<open>reader.readtext(img, detail=0, paragraph=True)\<close>, the list of
    recognized text blocks, or the exception it raises.
  Angles are real numbers here; the rounding of Python's floats is not modelled.
\<close>

datatype error = DecodeError | RecognitionError

record 'img env =
  listdir :: "pystr list"
  imread :: "pystr \<Rightarrow> 'img option"
  threshold :: "'img \<Rightarrow> 'img"
  minAreaRect_angle :: "'img \<Rightarrow> real"
  deskew_resize :: "'img \<Rightarrow> real \<Rightarrow> 'img"
  rotate_bound :: "'img \<Rightarrow> int \<Rightarrow> 'img"
  readtext :: "'img \<Rightarrow> error + pystr list"

section \<open>preprocess\_image\<close>

text \<open>
  \<^verbatim>\<open>
      angle = cv2.minAreaRect(coords)[-1]
      if angle < -45:
          angle = -(90 + angle)
      else:
          angle = -angle
  \<close>
  \<open>correct_angle\<close> is this conditional. \<^verbatim>\<open>cv2.cvtColor\<close> raises on the \<^verbatim>\<open>None\<close> that
  \<^verbatim>\<open>cv2.imread\<close> returns for an unreadable file; nothing catches it.
\<close>

definition correct_angle :: "real \<Rightarrow> real" where
  "correct_angle angle = (if angle < - 45 then - (90 + angle) else - angle)"

definition preprocess_image :: "'img env \<Rightarrow> pystr \<Rightarrow> error + 'img" where
  "preprocess_image e img_path =
     (case imread e img_path of
        None \<Rightarrow> Inl DecodeError
      | Some img \<Rightarrow>
          (let thresh = threshold e img;
               angle = correct_angle (minAreaRect_angle e thresh)
           in Inr (deskew_resize e thresh angle)))"

section \<open>extract\_text\_from\_images\<close>

text \<open>The Python values handed to \<^verbatim>\<open>json.dump\<close>: strings, lists and dictionaries
  (association lists in insertion order).\<close>

datatype json = JStr pystr | JList "json list" | JDict "(pystr \<times> json) list"

definition input_folder :: pystr where
  "input_folder = ascii ''aadhar.v1i.yolov5pytorch/train/images''"

text \<open>\<^verbatim>\<open>os.path.join(a, b)\<close> of \<^verbatim>\<open>posixpath\<close>, for two components.\<close>

definition os_path_join :: "pystr \<Rightarrow> pystr \<Rightarrow> pystr" where
  "os_path_join a b =
     (if b \<noteq> [] \<and> hd b = 47 then b
      else if a = [] \<or> last a = 47 then a @ b
      else a @ [47] @ b)"

text \<open>\<^verbatim>\<open>s.endswith(suffix)\<close> and the tuple form used by the filter.\<close>

definition endswith :: "pystr \<Rightarrow> pystr \<Rightarrow> bool" where
  "endswith s suf \<longleftrightarrow> length suf \<le> length s \<and> drop (length s - length suf) s = suf"

definition is_image_name :: "pystr \<Rightarrow> bool" where
  "is_image_name f \<longleftrightarrow>
     endswith f (ascii ''.png'') \<or> endswith f (ascii ''.jpg'') \<or> endswith f (ascii ''.jpeg'')"

text \<open>\<^verbatim>\<open>xs[start:stop]\<close>: a negative bound counts from the end, and both bounds are
  clamped to the list.\<close>

definition py_slice :: "'a list \<Rightarrow> int \<Rightarrow> int \<Rightarrow> 'a list" where
  "py_slice xs start stop =
     (let n = int (length xs);
          lo = (if start < 0 then max (start + n) 0 else min start n);
          hi = (if stop < 0 then max (stop + n) 0 else min stop n)
      in take (nat (hi - lo)) (drop (nat lo) xs))"

text \<open>
  \<^verbatim>\<open>
      image_files = [f for f in os.listdir(input_folder) if f.endswith(('.png', '.jpg', '.jpeg'))]
      image_files.sort()
      image_files = image_files[200:400]
  \<close>
\<close>

definition image_files :: "pystr list \<Rightarrow> pystr list" where
  "image_files names = py_slice (sort (filter is_image_name names)) 200 400"

text \<open>\<^verbatim>\<open>sep.join(parts)\<close>.\<close>

fun join :: "pystr \<Rightarrow> pystr list \<Rightarrow> pystr" where
  "join sep [] = []"
| "join sep [x] = x"
| "join sep (x # y # ys) = x @ sep @ join sep (y # ys)"

text \<open>
  The inner loop over the angles (the specification's \<^verbatim>\<open>extractBest\<close>), with
  \<open>best_result\<close> as the loop variable:
  \<^verbatim>\<open>
          best_result = ""
          for angle in [0, 90, 180, 270]:
              rotated_img = rotate_bound(processed_img, angle)
              results = reader.readtext(rotated_img, detail=0, paragraph=True)
              extracted_text = ' '.join(results)
              if len(extracted_text) > len(best_result):
                  best_result = extracted_text
  \<close>
  An exception of \<^verbatim>\<open>readtext\<close> leaves the loop, since the notebook has no handler.
\<close>

fun vote :: "'img env \<Rightarrow> 'img \<Rightarrow> int list \<Rightarrow> pystr \<Rightarrow> error + pystr" where
  "vote e processed_img [] best_result = Inr best_result"
| "vote e processed_img (angle # angles) best_result =
     (case readtext e (rotate_bound e processed_img angle) of
        Inl err \<Rightarrow> Inl err
      | Inr results \<Rightarrow>
          (let extracted_text = join (ascii '' '') results
           in vote e processed_img angles
                (if length extracted_text > length best_result then extracted_text
                 else best_result)))"

definition extract_best :: "'img env \<Rightarrow> 'img \<Rightarrow> error + pystr" where
  "extract_best e processed_img = vote e processed_img [0, 90, 180, 270] []"

text \<open>The dictionary appended for one image, and the outer loop; \<open>entries\<close> is
  \<^verbatim>\<open>data["input"]\<close>.\<close>

definition result_entry :: "pystr \<Rightarrow> pystr \<Rightarrow> json" where
  "result_entry filename cleaned_text =
     JDict [(ascii ''image'', JStr filename), (ascii ''text_extracted'', JStr cleaned_text)]"

fun process_files :: "'img env \<Rightarrow> pystr list \<Rightarrow> json list \<Rightarrow> error + json list" where
  "process_files e [] entries = Inr entries"
| "process_files e (filename # rest) entries =
     (case preprocess_image e (os_path_join input_folder filename) of
        Inl err \<Rightarrow> Inl err
      | Inr processed_img \<Rightarrow>
          (case extract_best e processed_img of
             Inl err \<Rightarrow> Inl err
           | Inr best_result \<Rightarrow>
               process_files e rest
                 (entries @ [result_entry filename (clean_text best_result)])))"

text \<open>
  The whole function. Its result is the value written to \<^verbatim>\<open>output_file\<close> by
  \<^verbatim>\<open>json.dump(data, f, indent=4)\<close>; \<open>Inl\<close> is an exception that ends the run before the
  file is opened, so that nothing is written.
\<close>

definition extract_text_from_images :: "'img env \<Rightarrow> error + json" where
  "extract_text_from_images e =
     (case process_files e (image_files (listdir e)) [] of
        Inl err \<Rightarrow> Inl err
      | Inr entries \<Rightarrow> Inr (JDict [(ascii ''input'', JList entries)]))"

section \<open>The specification's selection, candidates and result store\<close>

text \<open>
  The selection as the specification words it: the entries whose name ends in one of
  the three extensions, sorted, restricted to the positions from \<open>rangeStart\<close> up to but
  not including \<open>rangeEnd\<close>.
\<close>

definition spec_select :: "nat \<Rightarrow> nat \<Rightarrow> pystr list \<Rightarrow> pystr list" where
  "spec_select rangeStart rangeEnd names =
     (let listed = filter (\<lambda>f. suffix (ascii ''.png'') f \<or> suffix (ascii ''.jpg'') f \<or>
                                suffix (ascii ''.jpeg'') f) names;
          ordered = sort listed
      in map (\<lambda>i. ordered ! i) [rangeStart..<min rangeEnd (length ordered)])"

text \<open>The candidate texts of the angles, from the block lists the recognizer returned.\<close>

definition candidates :: "pystr list list \<Rightarrow> pystr list" where
  "candidates rs = map (join (ascii '' '')) rs"

text \<open>
  A corpus is the list of extraction results (\<open>image_name\<close> is the value stored under
  the key \<^verbatim>\<open>"image"\<close>). \<open>save\<close> is the value the notebook dumps
  for a corpus: \<^verbatim>\<open>{"input": [...]}\<close> with one \<open>result_entry\<close> per result.
\<close>

record extraction_result =
  image_name :: pystr
  text_extracted :: pystr

type_synonym corpus = "extraction_result list"

definition save :: "corpus \<Rightarrow> json" where
  "save c =
     JDict [(ascii ''input'', JList (map (\<lambda>r. result_entry (image_name r) (text_extracted r)) c))]"

text \<open>
  Modelled from the spec: \<open>load\<close>, which the notebook does not have (it only writes the
  file). Following section 4.5 it is the structural inverse of \<open>save\<close>: it reads the
  array under the key \<^verbatim>\<open>"input"\<close> and, from each object of the array, the strings
  under \<^verbatim>\<open>"image"\<close> and \<^verbatim>\<open>"text_extracted"\<close>; input of any other shape is rejected.
  Both directions work on the value that \<^verbatim>\<open>json.dump\<close> receives and \<^verbatim>\<open>json.load\<close>
  returns; the text layer of the \<^verbatim>\<open>json\<close> module is not modelled.
\<close>

fun load_entry :: "json \<Rightarrow> extraction_result option" where
  "load_entry (JDict kvs) =
     (case (map_of kvs (ascii ''image''), map_of kvs (ascii ''text_extracted'')) of
        (Some (JStr i), Some (JStr t)) \<Rightarrow> Some \<lparr>image_name = i, text_extracted = t\<rparr>
      | _ \<Rightarrow> None)"
| "load_entry _ = None"

fun load :: "json \<Rightarrow> corpus option" where
  "load (JDict kvs) =
     (case map_of kvs (ascii ''input'') of
        Some (JList es) \<Rightarrow> those (map load_entry es)
      | _ \<Rightarrow> None)"
| "load _ = None"

section \<open>Sample inputs\<close>

text \<open>
  Environments over images that are plain integers: rotating adds the angle, so that
  the recognizer can answer by orientation. \<open>sample_readtext\<close> returns texts of the
  lengths 5, 8, 8 and 3 at the four angles of image 0.
\<close>

definition sample_env ::
  "pystr list \<Rightarrow> (pystr \<Rightarrow> int option) \<Rightarrow> (int \<Rightarrow> error + pystr list) \<Rightarrow> int env" where
  "sample_env names rd ocr =
     \<lparr>listdir = names, imread = rd, threshold = (\<lambda>img. img),
      minAreaRect_angle = (\<lambda>img. - 46), deskew_resize = (\<lambda>img angle. img),
      rotate_bound = (\<lambda>img angle. img + angle), readtext = ocr\<rparr>"

definition sample_readtext :: "int \<Rightarrow> error + pystr list" where
  "sample_readtext img =
     (if img = 0 then Inr [ascii ''hello'']
      else if img = 90 then Inr [ascii ''ab'', ascii ''cde'', ascii ''f'']
      else if img = 180 then Inr [ascii ''12345678'']
      else Inr [ascii ''xyz''])"

definition failing_readtext :: "int \<Rightarrow> error + pystr list" where
  "failing_readtext img = (if img = 90 then Inl RecognitionError else sample_readtext img)"

text \<open>The directory \<^verbatim>\<open>img_000.png\<close>, \<^verbatim>\<open>img_001.png\<close>, ... with \<open>n\<close> files.\<close>

definition sample_name :: "nat \<Rightarrow> pystr" where
  "sample_name i =
     ascii ''img_'' @ [48 + i div 100, 48 + (i div 10) mod 10, 48 + i mod 10] @ ascii ''.png''"

definition sample_dir :: "nat \<Rightarrow> pystr list" where
  "sample_dir n = map sample_name [0..<n]"

text \<open>A reader for which only file number 200 cannot be decoded.\<close>

definition sample_imread :: "pystr \<Rightarrow> int option" where
  "sample_imread p = (if p = os_path_join input_folder (sample_name 200) then None else Some 0)"

text \<open>Sample runs: every file decodes and is recognized; file 200 cannot be decoded;
  the recognizer raises at 90 degrees; the recognizer raises always; the recognizer
  finds no text; and the three-file directory of the specification's ordering example.\<close>

definition ok_env :: "int env" where
  "ok_env = sample_env (sample_dir 202) (\<lambda>p. Some 0) sample_readtext"

definition bad_file_env :: "int env" where
  "bad_file_env = sample_env (sample_dir 202) sample_imread sample_readtext"

definition bad_ocr_env :: "int env" where
  "bad_ocr_env = sample_env (sample_dir 202) (\<lambda>p. Some 0) failing_readtext"

definition all_fail_env :: "int env" where
  "all_fail_env = sample_env (sample_dir 202) (\<lambda>p. Some 0) (\<lambda>img. Inl RecognitionError)"

definition blank_env :: "int env" where
  "blank_env = sample_env (sample_dir 202) (\<lambda>p. Some 0) (\<lambda>img. Inr [])"

definition small_env :: "int env" where
  "small_env =
     sample_env [ascii ''b.jpg'', ascii ''a.jpg'', ascii ''c.jpg''] (\<lambda>p. Some 0) sample_readtext"

section \<open>Properties of clean\_text\<close>

lemma is_space_32: "is_space 32"
  by (simp add: is_space_def)

lemma in_class_cases:
  "in_class c \<Longrightarrow> is_space c \<or> (spec_charset c \<and> c \<noteq> 10 \<and> c \<noteq> 32)"
  by (auto simp: in_class_def spec_charset_def is_space_def)

lemma spec_charset_32: "spec_charset 32"
  by (simp add: spec_charset_def)

lemma set_sub_spaces:
  "c \<in> set (sub_spaces xs) \<Longrightarrow> c = 32 \<or> (c \<in> set xs \<and> \<not> is_space c)"
  by (induction xs rule: sub_spaces.induct) (auto split: if_splits dest: set_dropWhileD)

lemma hd_sub_spaces:
  "xs \<noteq> [] \<Longrightarrow> sub_spaces xs \<noteq> [] \<and> hd (sub_spaces xs) = (if is_space (hd xs) then 32 else hd xs)"
  by (cases xs) auto

lemma no_adj_space_Cons:
  "no_adj_space (a # xs) \<longleftrightarrow> (xs \<noteq> [] \<longrightarrow> \<not> (is_space a \<and> is_space (hd xs))) \<and> no_adj_space xs"
  by (cases xs) auto

lemma no_adj_space_sub_spaces: "no_adj_space (sub_spaces xs)"
proof (induction xs rule: sub_spaces.induct)
  case 1
  show ?case by simp
next
  case (2 c cs)
  show ?case
  proof (cases "is_space c")
    case True
    let ?r = "dropWhile is_space cs"
    have tl: "no_adj_space (sub_spaces ?r)" using 2 True by simp
    have "?r \<noteq> [] \<Longrightarrow> \<not> is_space (hd (sub_spaces ?r))"
      using hd_sub_spaces [of ?r] hd_dropWhile [of is_space cs] by simp
    moreover have "?r = [] \<Longrightarrow> sub_spaces ?r = []" by (metis sub_spaces.simps(1))
    ultimately show ?thesis
      using True tl by (auto simp: no_adj_space_Cons)
  next
    case False
    then show ?thesis using 2 by (simp add: no_adj_space_Cons)
  qed
qed

lemma no_adj_space_prefix: "no_adj_space (xs @ ys) \<Longrightarrow> no_adj_space xs"
  by (induction xs rule: no_adj_space.induct) auto

lemma no_adj_space_dropWhile: "no_adj_space xs \<Longrightarrow> no_adj_space (dropWhile P xs)"
  by (induction xs) (auto simp: no_adj_space_Cons)

lemma rstrip_prefix:
  "xs = rev (dropWhile P (rev xs)) @ rev (takeWhile P (rev xs))"
  by (metis rev_append rev_rev_ident takeWhile_dropWhile_id)

lemma no_adj_space_strip: "no_adj_space xs \<Longrightarrow> no_adj_space (strip xs)"
proof -
  assume "no_adj_space xs"
  then have v: "no_adj_space (dropWhile is_space xs)" by (rule no_adj_space_dropWhile)
  show ?thesis
    unfolding strip_def
    using v rstrip_prefix [of "dropWhile is_space xs" is_space] no_adj_space_prefix by metis
qed

lemma set_strip: "set (strip xs) \<subseteq> set xs"
  unfolding strip_def by (auto dest!: set_dropWhileD)

lemma strip_ends:
  "strip xs = [] \<or> (\<not> is_space (hd (strip xs)) \<and> \<not> is_space (last (strip xs)))"
proof (cases "strip xs = []")
  case True
  then show ?thesis by simp
next
  case False
  let ?v = "dropWhile is_space xs"
  let ?u = "rev (dropWhile is_space (rev ?v))"
  have u: "strip xs = ?u" by (simp add: strip_def)
  have ne: "dropWhile is_space (rev ?v) \<noteq> []" using False u by simp
  have "last ?u = hd (dropWhile is_space (rev ?v))" using ne by (simp add: last_rev)
  then have l: "\<not> is_space (last ?u)" using hd_dropWhile [OF ne] by simp
  have pre: "?v = ?u @ rev (takeWhile is_space (rev ?v))" by (rule rstrip_prefix)
  have une: "?u \<noteq> []" using False u by simp
  then have vne: "?v \<noteq> []" using pre by (metis Nil_is_append_conv)
  have "hd ?v = hd ?u" using pre une by (metis hd_append2)
  then have h: "\<not> is_space (hd ?u)" using hd_dropWhile [OF vne] by simp
  show ?thesis using h l u by simp
qed

lemma strip_id:
  "xs = [] \<or> (\<not> is_space (hd xs) \<and> \<not> is_space (last xs)) \<Longrightarrow> strip xs = xs"
proof (cases "xs = []")
  case True
  then show ?thesis by (simp add: strip_def)
next
  case False
  assume "xs = [] \<or> (\<not> is_space (hd xs) \<and> \<not> is_space (last xs))"
  then have h: "\<not> is_space (hd xs)" and l: "\<not> is_space (last xs)" using False by auto
  have 1: "dropWhile is_space xs = xs" using h by (simp add: dropWhile_eq_self_iff)
  have "hd (rev xs) = last xs" using False by (simp add: hd_rev)
  then have 2: "dropWhile is_space (rev xs) = rev xs" using l by (simp add: dropWhile_eq_self_iff)
  show ?thesis by (simp add: strip_def 1 2)
qed

lemma sub_spaces_tidy: "tidy xs \<Longrightarrow> sub_spaces xs = xs"
proof (induction xs)
  case Nil
  show ?case by simp
next
  case (Cons c cs)
  have t: "tidy cs" using Cons.prems by (auto simp: tidy_def no_adj_space_Cons)
  show ?case
  proof (cases "is_space c")
    case True
    have c: "c = 32" using Cons.prems True by (auto simp: tidy_def)
    have "cs = [] \<or> \<not> is_space (hd cs)"
      using Cons.prems True by (auto simp: tidy_def no_adj_space_Cons)
    then have "dropWhile is_space cs = cs" by (simp add: dropWhile_eq_self_iff)
    then show ?thesis using True c Cons.IH [OF t] by simp
  next
    case False
    then show ?thesis using Cons.IH [OF t] by simp
  qed
qed

lemma tidy_clean_text: "tidy (clean_text s)"
proof -
  let ?t = "sub_spaces (filter in_class s)"
  have "\<forall>c\<in>set ?t. c = 32 \<or> (in_class c \<and> \<not> is_space c)"
    using set_sub_spaces [of _ "filter in_class s"] by auto
  then have "\<forall>c\<in>set (strip ?t). c = 32 \<or> (in_class c \<and> \<not> is_space c)"
    using set_strip [of ?t] by blast
  moreover have "no_adj_space (strip ?t)"
    by (rule no_adj_space_strip) (rule no_adj_space_sub_spaces)
  ultimately show ?thesis
    by (simp add: tidy_def clean_text_def list_all_iff)
qed

lemma filter_tidy: "tidy xs \<Longrightarrow> filter in_class xs = xs"
  by (auto simp: tidy_def list_all_iff filter_id_conv in_class_def is_space_def)

lemma clean_text_example:
  "clean_text (ascii ''a   b'' @ [10, 10] @ ascii '' c'') = ascii ''a b c''"
  by (simp add: clean_text_def strip_def ascii_def in_class_def is_space_def)

text \<open>
  C5. The sanitizer is idempotent: sanitizing an already sanitized text changes nothing,
  for every input string.
\<close>

theorem clean_text_idempotent: "clean_text (clean_text s) = clean_text s"
proof -
  let ?u = "clean_text s"
  have t: "tidy ?u" by (rule tidy_clean_text)
  have e: "?u = [] \<or> (\<not> is_space (hd ?u) \<and> \<not> is_space (last ?u))"
    unfolding clean_text_def by (rule strip_ends)
  have "clean_text ?u = strip (sub_spaces (filter in_class ?u))" by (simp add: clean_text_def)
  also have "\<dots> = strip ?u" by (simp add: filter_tidy [OF t] sub_spaces_tidy [OF t])
  also have "\<dots> = ?u" by (rule strip_id [OF e])
  finally show ?thesis .
qed

text \<open>
  C6. Every character of a sanitized text is an ASCII letter, an ASCII digit, one of
  the punctuation characters full stop, comma, colon and slash, the newline, or the
  ASCII space; nothing else survives.
\<close>

theorem clean_text_charset: "\<forall>c\<in>set (clean_text s). spec_charset c"
proof
  fix c
  assume "c \<in> set (clean_text s)"
  then have "c = 32 \<or> (in_class c \<and> \<not> is_space c)"
    using tidy_clean_text [of s] by (auto simp: tidy_def list_all_iff)
  then show "spec_charset c"
    using in_class_cases [of c] spec_charset_32 by auto
qed

theorem clean_text_charset_witness:
  "clean_text [72, 233, 108, 108, 111, 44, 32, 87, 246, 114, 108, 100, 33, 10, 49, 50, 51]
     = [72, 108, 108, 111, 44, 32, 87, 114, 108, 100, 32, 49, 50, 51] \<and>
   list_all spec_charset
     (clean_text [72, 233, 108, 108, 111, 44, 32, 87, 246, 114, 108, 100, 33, 10, 49, 50, 51])"
  using clean_text_charset [of "[72, 233, 108, 108, 111, 44, 32, 87, 246, 114, 108, 100, 33, 10, 49, 50, 51]"]
  unfolding list_all_iff
  by (simp add: clean_text_def strip_def is_space_def in_class_def)

section \<open>Orientation voting\<close>

lemma vote_all_ok:
  "map (\<lambda>a. readtext e (rotate_bound e img a)) angles = map Inr rs \<Longrightarrow>
   vote e img angles best =
     Inr (foldl (\<lambda>b t. if length t > length b then t else b) best (map (join (ascii '' '')) rs))"
proof (induction angles arbitrary: best rs)
  case Nil
  then show ?case by simp
next
  case (Cons a angles)
  then obtain r rs' where rs: "rs = r # rs'" by (cases rs) auto
  with Cons.prems have hd: "readtext e (rotate_bound e img a) = Inr r"
    and tl: "map (\<lambda>a. readtext e (rotate_bound e img a)) angles = map Inr rs'" by auto
  show ?case using Cons.IH [OF tl] by (simp add: rs hd Let_def)
qed

lemma vote_fail:
  "a \<in> set angles \<Longrightarrow> readtext e (rotate_bound e img a) = Inl err \<Longrightarrow>
   \<exists>err'. vote e img angles best = Inl err'"
proof (induction angles arbitrary: best)
  case Nil
  then show ?case by simp
next
  case (Cons b angles)
  show ?case
  proof (cases "readtext e (rotate_bound e img b)")
    case (Inl x)
    then show ?thesis by simp
  next
    case (Inr results)
    then have "a \<noteq> b" using Cons.prems by auto
    then have "a \<in> set angles" using Cons.prems by simp
    then show ?thesis using Cons.IH Cons.prems(2) Inr by (simp add: Let_def)
  qed
qed

lemma foldl_longest:
  fixes cs :: "pystr list"
  defines "step \<equiv> (\<lambda>b t. if length t > length b then t else b)"
  shows "(foldl step best cs = best \<and> (\<forall>c\<in>set cs. length c \<le> length best)) \<or>
     (\<exists>i<length cs. foldl step best cs = cs ! i \<and> length best < length (cs ! i) \<and>
        (\<forall>j<length cs. length (cs ! j) \<le> length (cs ! i)) \<and>
        (\<forall>j<i. length (cs ! j) < length (cs ! i)))"
proof (induction cs rule: rev_induct)
  case Nil
  show ?case by simp
next
  case (snoc c cs)
  let ?r = "foldl step best cs"
  show ?case
  proof (cases "length c > length ?r")
    case True
    have r: "foldl step best (cs @ [c]) = c" using True by (simp add: step_def)
    have le: "\<forall>j<length cs. length (cs ! j) \<le> length ?r"
      using snoc by (auto simp: all_set_conv_all_nth)
    have "length best \<le> length ?r" using snoc by auto
    then have "length best < length c" using True by simp
    moreover have "\<forall>j<length cs. length (cs ! j) < length c" using le True by auto
    ultimately have "length cs < length (cs @ [c]) \<and> foldl step best (cs @ [c]) = (cs @ [c]) ! length cs \<and>
        length best < length ((cs @ [c]) ! length cs) \<and>
        (\<forall>j<length (cs @ [c]). length ((cs @ [c]) ! j) \<le> length ((cs @ [c]) ! length cs)) \<and>
        (\<forall>j<length cs. length ((cs @ [c]) ! j) < length ((cs @ [c]) ! length cs))"
      using r by (auto simp: nth_append less_Suc_eq)
    then show ?thesis by blast
  next
    case False
    have r: "foldl step best (cs @ [c]) = ?r" using False by (simp add: step_def)
    from snoc show ?thesis
    proof
      assume a: "?r = best \<and> (\<forall>c\<in>set cs. length c \<le> length best)"
      then show ?thesis using r False by auto
    next
      assume "\<exists>i<length cs. ?r = cs ! i \<and> length best < length (cs ! i) \<and>
        (\<forall>j<length cs. length (cs ! j) \<le> length (cs ! i)) \<and>
        (\<forall>j<i. length (cs ! j) < length (cs ! i))"
      then obtain i where i: "i < length cs" "?r = cs ! i" "length best < length (cs ! i)"
        "\<forall>j<length cs. length (cs ! j) \<le> length (cs ! i)"
        "\<forall>j<i. length (cs ! j) < length (cs ! i)" by blast
      have "i < length (cs @ [c]) \<and> foldl step best (cs @ [c]) = (cs @ [c]) ! i \<and>
        length best < length ((cs @ [c]) ! i) \<and>
        (\<forall>j<length (cs @ [c]). length ((cs @ [c]) ! j) \<le> length ((cs @ [c]) ! i)) \<and>
        (\<forall>j<i. length ((cs @ [c]) ! j) < length ((cs @ [c]) ! i))"
        using i r False by (auto simp: nth_append less_Suc_eq)
      then show ?thesis by blast
    qed
  qed
qed

section \<open>File selection and the sample directory\<close>

lemma div_mod_less:
  fixes a b :: nat
  assumes "a < b"
  shows "a div 10 < b div 10 \<or> (a div 10 = b div 10 \<and> a mod 10 < b mod 10)"
proof -
  have "a div 10 \<le> b div 10" using assms by (simp add: div_le_mono)
  moreover have "a div 10 = b div 10 \<Longrightarrow> a mod 10 < b mod 10"
    using div_mult_mod_eq [of a 10] div_mult_mod_eq [of b 10] assms by linarith
  ultimately show ?thesis by linarith
qed

lemma digits_less:
  fixes i j :: nat
  assumes "i < j"
  shows "i div 100 < j div 100 \<or> (i div 100 = j div 100 \<and> (i div 10 mod 10 < j div 10 mod 10 \<or>
      (i div 10 mod 10 = j div 10 mod 10 \<and> i mod 10 < j mod 10)))"
proof -
  have h: "i div 100 = i div 10 div 10" "j div 100 = j div 10 div 10"
    by (simp_all add: div_mult2_eq)
  show ?thesis
    using div_mod_less [OF assms] div_mod_less [of "i div 10" "j div 10"] unfolding h by metis
qed

lemma sample_name_less: "i < j \<Longrightarrow> sample_name i < sample_name j"
  using digits_less [of i j] by (simp add: sample_name_def ascii_def)

lemma sorted_sample_dir: "sorted (sample_dir n)"
  unfolding sample_dir_def sorted_iff_nth_mono
proof (intro allI impI)
  fix i j
  assume "i \<le> j" and "j < length (map sample_name [0..<n])"
  then show "map sample_name [0..<n] ! i \<le> map sample_name [0..<n] ! j"
    using sample_name_less [of i j] by (cases "i = j") (auto simp: less_le)
qed

lemma sample_name_image: "is_image_name (sample_name i)"
  by (simp add: sample_name_def is_image_name_def endswith_def ascii_def)

lemma is_image_name_examples:
  "is_image_name (ascii ''a.jpg'') \<and> is_image_name (ascii ''scan.jpeg'') \<and>
   \<not> is_image_name (ascii ''a.JPG'') \<and> \<not> is_image_name (ascii ''notes.txt'') \<and>
   \<not> is_image_name (ascii ''png'')"
  by (simp add: is_image_name_def endswith_def ascii_def)

lemma py_slice_nat: "py_slice xs (int a) (int b) = take (b - a) (drop a xs)"
  by (auto simp: py_slice_def Let_def min_def nat_diff_distrib')

lemma py_slice_200_400: "py_slice xs 200 400 = take 200 (drop 200 xs)"
  using py_slice_nat [of xs 200 400] by simp

lemma image_files_sorted:
  "sorted names \<Longrightarrow> list_all is_image_name names \<Longrightarrow>
   image_files names = take 200 (drop 200 names)"
  by (simp add: image_files_def py_slice_200_400 sorted_sort_id list_all_iff)

lemma image_files_sample_dir: "image_files (sample_dir 202) = [sample_name 200, sample_name 201]"
proof -
  have "image_files (sample_dir 202) = take 200 (drop 200 (sample_dir 202))"
  proof (rule image_files_sorted)
    show "sorted (sample_dir 202)" by (rule sorted_sample_dir)
    show "list_all is_image_name (sample_dir 202)"
      by (simp add: list_all_iff sample_dir_def sample_name_image)
  qed
  also have "\<dots> = map sample_name [200..<202]"
    by (simp add: sample_dir_def drop_map take_map)
  also have "[200..<202] = [200, 201::nat]"
    by (simp add: upt_rec)
  finally show ?thesis by simp
qed

lemma endswith_suffix: "endswith s t \<longleftrightarrow> suffix t s"
proof
  assume "endswith s t"
  then show "suffix t s" unfolding endswith_def by (metis suffix_drop)
next
  assume "suffix t s"
  then obtain zs where "s = zs @ t" by (auto simp: suffix_def)
  then show "endswith s t" by (simp add: endswith_def)
qed

lemma take_drop_nth: "take (b - a) (drop a xs) = map (\<lambda>i. xs ! i) [a..<min b (length xs)]"
proof (rule nth_equalityI)
  show "length (take (b - a) (drop a xs)) = length (map (\<lambda>i. xs ! i) [a..<min b (length xs)])"
    by auto
next
  fix i
  assume "i < length (take (b - a) (drop a xs))"
  then have i: "i < b - a" "i < length xs - a" by simp_all
  then have "a + i < min b (length xs)" by (simp add: less_diff_conv add.commute)
  then show "take (b - a) (drop a xs) ! i = map (\<lambda>i. xs ! i) [a..<min b (length xs)] ! i"
    using i by simp
qed

lemma is_image_name_suffix:
  "is_image_name =
     (\<lambda>f. suffix (ascii ''.png'') f \<or> suffix (ascii ''.jpg'') f \<or> suffix (ascii ''.jpeg'') f)"
  by (rule ext) (simp add: is_image_name_def endswith_suffix)

lemma image_files_spec_select: "image_files names = spec_select 200 400 names"
  by (simp add: image_files_def spec_select_def Let_def py_slice_200_400 is_image_name_suffix
      take_drop_nth [of 400 200, simplified])


section \<open>The batch loop\<close>

lemma process_files_Inr:
  "process_files e files entries = Inr out \<Longrightarrow>
   \<exists>texts. list_all2 (\<lambda>f t. \<exists>img. preprocess_image e (os_path_join input_folder f) = Inr img \<and>
                                extract_best e img = Inr t) files texts \<and>
           out = entries @ map2 (\<lambda>f t. result_entry f (clean_text t)) files texts"
proof (induction files arbitrary: entries)
  case Nil
  then show ?case by simp
next
  case (Cons f files)
  from Cons.prems obtain img where img: "preprocess_image e (os_path_join input_folder f) = Inr img"
    by (cases "preprocess_image e (os_path_join input_folder f)") auto
  from Cons.prems img obtain t where t: "extract_best e img = Inr t"
    by (cases "extract_best e img") auto
  from Cons.prems img t
  have "process_files e files (entries @ [result_entry f (clean_text t)]) = Inr out" by simp
  from Cons.IH [OF this] obtain texts where
    l: "list_all2 (\<lambda>f t. \<exists>img. preprocess_image e (os_path_join input_folder f) = Inr img \<and>
                                extract_best e img = Inr t) files texts"
    and o: "out = (entries @ [result_entry f (clean_text t)]) @
                   map2 (\<lambda>f t. result_entry f (clean_text t)) files texts" by blast
  have "list_all2 (\<lambda>f t. \<exists>img. preprocess_image e (os_path_join input_folder f) = Inr img \<and>
                                extract_best e img = Inr t) (f # files) (t # texts)"
    using l img t by auto
  moreover have "out = entries @ map2 (\<lambda>f t. result_entry f (clean_text t)) (f # files) (t # texts)"
    using o by simp
  ultimately show ?case by blast
qed

lemma process_files_Inr_each:
  assumes "process_files e files entries = Inr out" and "f \<in> set files"
  shows "\<exists>img t. preprocess_image e (os_path_join input_folder f) = Inr img \<and>
                 extract_best e img = Inr t"
proof -
  from process_files_Inr [OF assms(1)] obtain texts where
    l: "list_all2 (\<lambda>f t. \<exists>img. preprocess_image e (os_path_join input_folder f) = Inr img \<and>
                                extract_best e img = Inr t) files texts" by blast
  from assms(2) obtain i where "i < length files" "files ! i = f" by (auto simp: in_set_conv_nth)
  with l show ?thesis by (auto dest: list_all2_nthD)
qed

lemma run_Inr:
  "extract_text_from_images e = Inr out \<Longrightarrow>
   \<exists>entries. process_files e (image_files (listdir e)) [] = Inr entries \<and>
             out = JDict [(ascii ''input'', JList entries)]"
  by (auto simp: extract_text_from_images_def split: sum.splits)

lemma run_not_Inr: "(\<And>out. extract_text_from_images e \<noteq> Inr out) \<Longrightarrow> \<exists>err. extract_text_from_images e = Inl err"
  by (cases "extract_text_from_images e") auto

lemma distinct_image_files: "distinct names \<Longrightarrow> distinct (image_files names)"
  by (simp add: image_files_def py_slice_200_400)

lemma sample_name_neq: "i \<noteq> j \<Longrightarrow> sample_name i \<noteq> sample_name j"
  using sample_name_less [of i j] sample_name_less [of j i] by (auto simp: neq_iff)

lemma distinct_sample_dir: "distinct (sample_dir n)"
  by (auto simp: sample_dir_def distinct_map inj_on_def dest: sample_name_neq [rotated])

lemma preprocess_sample:
  "preprocess_image (sample_env names (\<lambda>p. Some 0) ocr) p = Inr 0"
  by (simp add: preprocess_image_def sample_env_def)

lemma extract_best_sample:
  "extract_best (sample_env names rd sample_readtext) 0 = Inr (ascii ''ab cde f'')"
  by (simp add: extract_best_def sample_env_def sample_readtext_def ascii_def)

lemma extract_best_failing:
  "extract_best (sample_env names rd failing_readtext) 0 = Inl RecognitionError"
  by (simp add: extract_best_def sample_env_def sample_readtext_def failing_readtext_def ascii_def)

lemma extract_best_all_fail:
  "extract_best (sample_env names rd (\<lambda>img. Inl RecognitionError)) 0 = Inl RecognitionError"
  by (simp add: extract_best_def sample_env_def)

lemma extract_best_blank:
  "extract_best (sample_env names rd (\<lambda>img. Inr [])) 0 = Inr []"
  by (simp add: extract_best_def sample_env_def)

lemma clean_text_sample: "clean_text (ascii ''ab cde f'') = ascii ''ab cde f''"
  by (simp add: clean_text_def strip_def ascii_def in_class_def is_space_def)

lemma clean_text_Nil: "clean_text [] = []"
  by (simp add: clean_text_def strip_def)

lemma listdir_sample: "listdir (sample_env names rd ocr) = names"
  by (simp add: sample_env_def)

lemma run_ok_env:
  "extract_text_from_images ok_env =
     Inr (JDict [(ascii ''input'',
       JList [result_entry (sample_name 200) (ascii ''ab cde f''),
              result_entry (sample_name 201) (ascii ''ab cde f'')])])"
  by (simp add: extract_text_from_images_def ok_env_def listdir_sample image_files_sample_dir
      preprocess_sample extract_best_sample clean_text_sample)

lemma run_bad_ocr_env: "extract_text_from_images bad_ocr_env = Inl RecognitionError"
  by (simp add: extract_text_from_images_def bad_ocr_env_def listdir_sample image_files_sample_dir
      preprocess_sample extract_best_failing)

lemma sample_imread_200: "sample_imread (os_path_join input_folder (sample_name 200)) = None"
  by (simp add: sample_imread_def)

lemma sample_imread_201: "sample_imread (os_path_join input_folder (sample_name 201)) = Some 0"
  by (simp add: sample_imread_def os_path_join_def input_folder_def sample_name_def ascii_def)

lemma run_bad_file_env: "extract_text_from_images bad_file_env = Inl DecodeError"
  by (simp add: extract_text_from_images_def bad_file_env_def listdir_sample image_files_sample_dir
      preprocess_image_def sample_env_def sample_imread_200)

lemma run_small_env: "extract_text_from_images small_env = Inr (JDict [(ascii ''input'', JList [])])"
  by (simp add: extract_text_from_images_def small_env_def listdir_sample image_files_def py_slice_def)


section \<open>Claims on orientation voting\<close>

lemma extract_best_index:
  assumes "readtext e (rotate_bound e img 0) = Inr r0"
    and "readtext e (rotate_bound e img 90) = Inr r90"
    and "readtext e (rotate_bound e img 180) = Inr r180"
    and "readtext e (rotate_bound e img 270) = Inr r270"
  shows "\<exists>i<4. extract_best e img = Inr (candidates [r0, r90, r180, r270] ! i) \<and>
           (\<forall>j<4. length (candidates [r0, r90, r180, r270] ! j)
                     \<le> length (candidates [r0, r90, r180, r270] ! i)) \<and>
           (\<forall>j<i. length (candidates [r0, r90, r180, r270] ! j)
                     < length (candidates [r0, r90, r180, r270] ! i))"
proof -
  let ?cs = "candidates [r0, r90, r180, r270]"
  let ?step = "\<lambda>b t :: pystr. if length t > length b then t else b"
  have len: "length ?cs = 4" by (simp add: candidates_def)
  have "map (\<lambda>a. readtext e (rotate_bound e img a)) [0, 90, 180, 270] = map Inr [r0, r90, r180, r270]"
    using assms by simp
  from vote_all_ok [OF this]
  have eb: "extract_best e img = Inr (foldl ?step [] ?cs)"
    by (simp add: extract_best_def candidates_def)
  from foldl_longest [of "[]" ?cs] show ?thesis
  proof
    assume a: "foldl ?step [] ?cs = [] \<and> (\<forall>c\<in>set ?cs. length c \<le> length ([] :: pystr))"
    then have all: "\<forall>j<4. ?cs ! j = []" using len by (auto simp: all_set_conv_all_nth)
    have "(0::nat) < 4 \<and> extract_best e img = Inr (?cs ! 0) \<and>
        (\<forall>j<4. length (?cs ! j) \<le> length (?cs ! 0)) \<and> (\<forall>j<0. length (?cs ! j) < length (?cs ! 0))"
      using a all eb by simp
    then show ?thesis by blast
  next
    assume "\<exists>i<length ?cs. foldl ?step [] ?cs = ?cs ! i \<and> length ([] :: pystr) < length (?cs ! i) \<and>
        (\<forall>j<length ?cs. length (?cs ! j) \<le> length (?cs ! i)) \<and>
        (\<forall>j<i. length (?cs ! j) < length (?cs ! i))"
    then show ?thesis using eb len by auto
  qed
qed

text \<open>
  C1. Orientation voting scans the angles 0, 90, 180, 270 in this order, joins the text
  blocks of each angle with single spaces, and replaces the best candidate only by a
  strictly longer one: the result is the first candidate of maximal length. With the
  candidate lengths 5, 8, 8, 3 it is the candidate of 90 degrees.
\<close>

theorem extract_best_first_longest:
  assumes "readtext e (rotate_bound e img 0) = Inr r0"
    and "readtext e (rotate_bound e img 90) = Inr r90"
    and "readtext e (rotate_bound e img 180) = Inr r180"
    and "readtext e (rotate_bound e img 270) = Inr r270"
  shows "\<exists>i<4. extract_best e img = Inr (candidates [r0, r90, r180, r270] ! i) \<and>
           (\<forall>j<4. length (candidates [r0, r90, r180, r270] ! j)
                     \<le> length (candidates [r0, r90, r180, r270] ! i)) \<and>
           (\<forall>j<i. length (candidates [r0, r90, r180, r270] ! j)
                     < length (candidates [r0, r90, r180, r270] ! i))"
  using assms by (rule extract_best_index)

theorem extract_best_first_longest_witness:
  "map length (candidates [[ascii ''hello''], [ascii ''ab'', ascii ''cde'', ascii ''f''],
                           [ascii ''12345678''], [ascii ''xyz'']]) = [5, 8, 8, 3] \<and>
   extract_best ok_env 0 = Inr (ascii ''ab cde f'')"
proof -
  let ?cs = "candidates [[ascii ''hello''], [ascii ''ab'', ascii ''cde'', ascii ''f''],
                           [ascii ''12345678''], [ascii ''xyz'']]"
  have lens: "map length ?cs = [5, 8, 8, 3]" by (simp add: candidates_def ascii_def)
  have h0: "readtext ok_env (rotate_bound ok_env 0 0) = Inr [ascii ''hello'']"
    and h90: "readtext ok_env (rotate_bound ok_env 0 90) = Inr [ascii ''ab'', ascii ''cde'', ascii ''f'']"
    and h180: "readtext ok_env (rotate_bound ok_env 0 180) = Inr [ascii ''12345678'']"
    and h270: "readtext ok_env (rotate_bound ok_env 0 270) = Inr [ascii ''xyz'']"
    by (simp_all add: ok_env_def sample_env_def sample_readtext_def)
  from extract_best_first_longest [OF h0 h90 h180 h270] obtain i where
    i: "i < 4" and r: "extract_best ok_env 0 = Inr (?cs ! i)"
    and mx: "\<forall>j<4. length (?cs ! j) \<le> length (?cs ! i)"
    and fst: "\<forall>j<i. length (?cs ! j) < length (?cs ! i)" by blast
  from i have "i = 0 \<or> i = 1 \<or> i = 2 \<or> i = 3" by auto
  moreover have "i \<noteq> 0"
  proof
    assume "i = 0"
    with mx [rule_format, of 1] show False by (simp add: candidates_def ascii_def)
  qed
  moreover have "i \<noteq> 3"
  proof
    assume "i = 3"
    with mx [rule_format, of 1] show False by (simp add: candidates_def ascii_def)
  qed
  moreover have "i \<noteq> 2"
  proof
    assume "i = 2"
    with fst [rule_format, of 1] show False by (simp add: candidates_def ascii_def)
  qed
  ultimately have "i = 1" by blast
  then have "extract_best ok_env 0 = Inr (ascii ''ab cde f'')"
    using r by (simp add: candidates_def ascii_def)
  then show ?thesis using lens by simp
qed

text \<open>
  C10. When the recognizer answers at all four angles, the selected text is the empty
  string or one of the four space-joined answers, its length is the maximum of the four
  lengths, and the image contributes one result entry; when all four answers are empty
  the entry is still appended, with the empty string as its text.
\<close>

theorem voting_selects_a_longest_candidate:
  assumes "preprocess_image e (os_path_join input_folder filename) = Inr img"
    and "readtext e (rotate_bound e img 0) = Inr r0"
    and "readtext e (rotate_bound e img 90) = Inr r90"
    and "readtext e (rotate_bound e img 180) = Inr r180"
    and "readtext e (rotate_bound e img 270) = Inr r270"
  shows "\<exists>best. extract_best e img = Inr best \<and>
           (best = [] \<or> best \<in> set (candidates [r0, r90, r180, r270])) \<and>
           length best = Max (set (map length (candidates [r0, r90, r180, r270]))) \<and>
           process_files e (filename # rest) entries =
             process_files e rest (entries @ [result_entry filename (clean_text best)]) \<and>
           (candidates [r0, r90, r180, r270] = [[], [], [], []] \<longrightarrow>
              best = [] \<and> clean_text best = [])"
proof -
  let ?cs = "candidates [r0, r90, r180, r270]"
  have len: "length ?cs = 4" by (simp add: candidates_def)
  from extract_best_index [OF assms(2-5)] obtain i where
    i: "i < 4" and r: "extract_best e img = Inr (?cs ! i)"
    and mx: "\<forall>j<4. length (?cs ! j) \<le> length (?cs ! i)" by blast
  have mem: "?cs ! i \<in> set ?cs" using i len by simp
  have "Max (set (map length ?cs)) = length (?cs ! i)"
  proof (rule Max_eqI)
    show "finite (set (map length ?cs))" by simp
    show "length (?cs ! i) \<in> set (map length ?cs)" using mem by simp
    fix y assume "y \<in> set (map length ?cs)"
    then obtain j where "j < 4" "y = length (?cs ! j)" using len by (auto simp: in_set_conv_nth)
    then show "y \<le> length (?cs ! i)" using mx by simp
  qed
  moreover have "process_files e (filename # rest) entries =
      process_files e rest (entries @ [result_entry filename (clean_text (?cs ! i))])"
    using assms(1) r by simp
  moreover have "?cs = [[], [], [], []] \<longrightarrow> ?cs ! i = [] \<and> clean_text (?cs ! i) = []"
    using mem by (auto simp: clean_text_Nil)
  ultimately show ?thesis using r mem by auto
qed

theorem voting_selects_a_longest_candidate_witness:
  "extract_best blank_env 0 = Inr [] \<and>
   process_files blank_env [sample_name 200] [] = Inr [result_entry (sample_name 200) []]"
proof -
  have p: "preprocess_image blank_env (os_path_join input_folder (sample_name 200)) = Inr 0"
    by (simp add: blank_env_def preprocess_sample)
  have h: "readtext blank_env (rotate_bound blank_env 0 0) = Inr []"
    "readtext blank_env (rotate_bound blank_env 0 90) = Inr []"
    "readtext blank_env (rotate_bound blank_env 0 180) = Inr []"
    "readtext blank_env (rotate_bound blank_env 0 270) = Inr []"
    by (simp_all add: blank_env_def sample_env_def)
  from voting_selects_a_longest_candidate [OF p h, of "[]" "[]"] obtain best where
    b: "extract_best blank_env 0 = Inr best"
    and s: "process_files blank_env [sample_name 200] [] =
             process_files blank_env [] ([] @ [result_entry (sample_name 200) (clean_text best)])"
    and e: "candidates [[], [], [], []] = [[], [], [], []] \<longrightarrow> best = [] \<and> clean_text best = []"
    by blast
  have "candidates [[], [], [], []] = [[], [], [], []]" by (simp add: candidates_def)
  with e have "best = [] \<and> clean_text best = []" by blast
  then show ?thesis using b s by (simp add: clean_text_Nil)
qed


section \<open>Claims on preprocessing and on failures\<close>

text \<open>
  C4. The skew correction of \<open>preprocess_image\<close>: a raw angle strictly below -45 is
  corrected to -(90 + angle), any other to -angle. So -46 gives -44, -44 gives 44, and
  -45 itself takes the second branch and gives 45.
\<close>

theorem skew_correction_rule:
  "(a < - 45 \<longrightarrow> correct_angle a = - (90 + a)) \<and>
   (\<not> a < - 45 \<longrightarrow> correct_angle a = - a) \<and>
   correct_angle (- 46) = - 44 \<and> correct_angle (- 44) = 44 \<and> correct_angle (- 45) = 45 \<and>
   (imread e p = Some img \<longrightarrow>
      preprocess_image e p =
        Inr (deskew_resize e (threshold e img)
               (correct_angle (minAreaRect_angle e (threshold e img)))))"
  by (simp add: correct_angle_def preprocess_image_def Let_def)

theorem skew_correction_rule_witness:
  "correct_angle (- 46) = - (90 + (- 46)) \<and> correct_angle (- 44) = - (- 44) \<and>
   preprocess_image ok_env (ascii ''a.png'') =
     Inr (deskew_resize ok_env (threshold ok_env 0)
            (correct_angle (minAreaRect_angle ok_env (threshold ok_env 0))))"
proof -
  have "(- 46 :: real) < - 45" by simp
  with skew_correction_rule [of "- 46" ok_env "ascii ''a.png''" 0]
  have 1: "correct_angle (- 46) = - (90 + (- 46))" by blast
  have "\<not> (- 44 :: real) < - 45" by simp
  with skew_correction_rule [of "- 44" ok_env "ascii ''a.png''" 0]
  have 2: "correct_angle (- 44) = - (- 44)" by blast
  have "imread ok_env (ascii ''a.png'') = Some 0" by (simp add: ok_env_def sample_env_def)
  with skew_correction_rule [of "- 44" ok_env "ascii ''a.png''" 0]
  have 3: "preprocess_image ok_env (ascii ''a.png'') =
     Inr (deskew_resize ok_env (threshold ok_env 0)
            (correct_angle (minAreaRect_angle ok_env (threshold ok_env 0))))" by blast
  from 1 2 3 show ?thesis by blast
qed

text \<open>
  C3, as the code has it. An exception of the recognizer at any of the four angles is
  not caught: \<open>extract_best\<close> yields no candidate, and the run that reaches this image
  ends with an error and writes nothing. Only a recognizer that returns no text block
  gives the empty candidate of length 0, and four such answers give the empty text.
\<close>

theorem recognizer_failure_propagates:
  "(a \<in> set [0, 90, 180, 270] \<and> readtext e (rotate_bound e img a) = Inl err \<longrightarrow>
      (\<exists>err'. extract_best e img = Inl err') \<and>
      (filename \<in> set (image_files (listdir e)) \<and>
       preprocess_image e (os_path_join input_folder filename) = Inr img \<longrightarrow>
         (\<exists>err'. extract_text_from_images e = Inl err'))) \<and>
   ((\<forall>a\<in>set [0, 90, 180, 270]. readtext e (rotate_bound e img a) = Inr []) \<longrightarrow>
      extract_best e img = Inr [])"
proof (intro conjI impI)
  assume a: "a \<in> set [0, 90, 180, 270] \<and> readtext e (rotate_bound e img a) = Inl err"
  then show eb: "\<exists>err'. extract_best e img = Inl err'"
    unfolding extract_best_def using vote_fail [of a "[0, 90, 180, 270]" e img err "[]"] by blast
  assume f: "filename \<in> set (image_files (listdir e)) \<and>
       preprocess_image e (os_path_join input_folder filename) = Inr img"
  show "\<exists>err'. extract_text_from_images e = Inl err'"
  proof (rule run_not_Inr)
    fix out
    show "extract_text_from_images e \<noteq> Inr out"
    proof
      assume "extract_text_from_images e = Inr out"
      then obtain entries where "process_files e (image_files (listdir e)) [] = Inr entries"
        using run_Inr by blast
      from process_files_Inr_each [OF this, of filename] f eb show False by auto
    qed
  qed
next
  assume "\<forall>a\<in>set [0, 90, 180, 270]. readtext e (rotate_bound e img a) = Inr []"
  then show "extract_best e img = Inr []" by (simp add: extract_best_def)
qed

theorem recognizer_failure_propagates_witness:
  "readtext bad_ocr_env (rotate_bound bad_ocr_env 0 90) = Inl RecognitionError \<and>
   (\<exists>err'. extract_best bad_ocr_env 0 = Inl err') \<and>
   sample_name 200 \<in> set (image_files (listdir bad_ocr_env)) \<and>
   (\<exists>err'. extract_text_from_images bad_ocr_env = Inl err') \<and>
   extract_best blank_env 0 = Inr []"
proof -
  have r: "(90::int) \<in> set [0, 90, 180, 270] \<and>
      readtext bad_ocr_env (rotate_bound bad_ocr_env 0 90) = Inl RecognitionError"
    by (simp add: bad_ocr_env_def sample_env_def failing_readtext_def)
  have f: "sample_name 200 \<in> set (image_files (listdir bad_ocr_env)) \<and>
      preprocess_image bad_ocr_env (os_path_join input_folder (sample_name 200)) = Inr 0"
    by (simp add: bad_ocr_env_def listdir_sample image_files_sample_dir preprocess_sample)
  have b: "\<forall>a\<in>set [0, 90, 180, 270]. readtext blank_env (rotate_bound blank_env 0 a) = Inr []"
    by (simp add: blank_env_def sample_env_def)
  from recognizer_failure_propagates [of 90 bad_ocr_env 0 RecognitionError "sample_name 200"] r f
  have "(\<exists>err'. extract_best bad_ocr_env 0 = Inl err') \<and>
        (\<exists>err'. extract_text_from_images bad_ocr_env = Inl err')" by blast
  moreover from recognizer_failure_propagates [of 0 blank_env 0 RecognitionError "[]"] b
  have "extract_best blank_env 0 = Inr []" by blast
  ultimately show ?thesis using r f by blast
qed

theorem recognizer_failure_counterexample:
  "extract_best bad_ocr_env 0 = Inl RecognitionError \<and>
   extract_best all_fail_env 0 = Inl RecognitionError \<and>
   extract_text_from_images bad_ocr_env = Inl RecognitionError"
  by (simp add: bad_ocr_env_def [symmetric] run_bad_ocr_env)
     (simp add: bad_ocr_env_def all_fail_env_def extract_best_failing extract_best_all_fail)

text \<open>
  C7, as the code has it. A selected file that \<open>imread\<close> cannot decode makes
  \<open>preprocess_image\<close> fail, nothing catches the failure, and the whole run ends with an
  error before the output is written: the item is not skipped.
\<close>

theorem undecodable_file_aborts_run:
  assumes "filename \<in> set (image_files (listdir e))"
    and "imread e (os_path_join input_folder filename) = None"
  shows "preprocess_image e (os_path_join input_folder filename) = Inl DecodeError \<and>
         (\<exists>err. extract_text_from_images e = Inl err)"
proof
  show p: "preprocess_image e (os_path_join input_folder filename) = Inl DecodeError"
    using assms(2) by (simp add: preprocess_image_def)
  show "\<exists>err. extract_text_from_images e = Inl err"
  proof (rule run_not_Inr)
    fix out
    show "extract_text_from_images e \<noteq> Inr out"
    proof
      assume "extract_text_from_images e = Inr out"
      then obtain entries where "process_files e (image_files (listdir e)) [] = Inr entries"
        using run_Inr by blast
      from process_files_Inr_each [OF this assms(1)] p show False by auto
    qed
  qed
qed

theorem undecodable_file_aborts_run_witness:
  "sample_name 200 \<in> set (image_files (listdir bad_file_env)) \<and>
   imread bad_file_env (os_path_join input_folder (sample_name 200)) = None \<and>
   imread bad_file_env (os_path_join input_folder (sample_name 201)) = Some 0 \<and>
   preprocess_image bad_file_env (os_path_join input_folder (sample_name 200)) = Inl DecodeError \<and>
   (\<exists>err. extract_text_from_images bad_file_env = Inl err)"
proof -
  have m: "sample_name 200 \<in> set (image_files (listdir bad_file_env))"
    by (simp add: bad_file_env_def listdir_sample image_files_sample_dir)
  have n: "imread bad_file_env (os_path_join input_folder (sample_name 200)) = None"
    by (simp add: bad_file_env_def sample_env_def sample_imread_200)
  have s: "imread bad_file_env (os_path_join input_folder (sample_name 201)) = Some 0"
    by (simp add: bad_file_env_def sample_env_def sample_imread_201)
  from undecodable_file_aborts_run [OF m n] m n s show ?thesis by blast
qed

theorem undecodable_file_counterexample:
  "sample_name 201 \<in> set (image_files (listdir bad_file_env)) \<and>
   imread bad_file_env (os_path_join input_folder (sample_name 201)) = Some 0 \<and>
   extract_text_from_images bad_file_env = Inl DecodeError"
proof -
  have "sample_name 201 \<in> set (image_files (listdir bad_file_env))"
    by (simp add: bad_file_env_def listdir_sample image_files_sample_dir)
  moreover have "imread bad_file_env (os_path_join input_folder (sample_name 201)) = Some 0"
    by (simp add: bad_file_env_def sample_env_def sample_imread_201)
  ultimately show ?thesis using run_bad_file_env by simp
qed


section \<open>Claims on the batch run and the result store\<close>

lemma map2_result_entry:
  "map2 (\<lambda>f t. result_entry f (clean_text t)) files texts =
   map2 result_entry files (map clean_text texts)"
  by (simp add: zip_map2 split_def)

lemma run_Inr_entries:
  assumes "extract_text_from_images e = Inr out"
  shows "\<exists>texts. list_all2 (\<lambda>f t. \<exists>img. preprocess_image e (os_path_join input_folder f) = Inr img \<and>
                                extract_best e img = Inr t) (image_files (listdir e)) texts \<and>
           out = JDict [(ascii ''input'',
                   JList (map2 result_entry (image_files (listdir e)) (map clean_text texts)))]"
proof -
  from run_Inr [OF assms] obtain entries where
    p: "process_files e (image_files (listdir e)) [] = Inr entries"
    and o: "out = JDict [(ascii ''input'', JList entries)]" by blast
  from process_files_Inr [OF p] show ?thesis
    using o by (auto simp: map2_result_entry)
qed

text \<open>
  C8. The value written by a run that completes is an object with the single key
  "input", whose array holds one object per selected image, in processing order; each
  object has the file name (as listed, not the joined path) under "image" and the
  sanitized best text under "text\_extracted"; the file names are pairwise distinct when
  the directory listing is.
\<close>

theorem output_shape:
  assumes "extract_text_from_images e = Inr out" and "distinct (listdir e)"
  shows "\<exists>texts.
           list_all2 (\<lambda>f t. \<exists>img. preprocess_image e (os_path_join input_folder f) = Inr img \<and>
                                  extract_best e img = Inr t) (image_files (listdir e)) texts \<and>
           out = JDict [(ascii ''input'',
                   JList (map2 (\<lambda>f t. JDict [(ascii ''image'', JStr f),
                                               (ascii ''text_extracted'', JStr (clean_text t))])
                            (image_files (listdir e)) texts))] \<and>
           distinct (image_files (listdir e))"
proof -
  from run_Inr_entries [OF assms(1)] obtain texts where
    l: "list_all2 (\<lambda>f t. \<exists>img. preprocess_image e (os_path_join input_folder f) = Inr img \<and>
                                extract_best e img = Inr t) (image_files (listdir e)) texts"
    and o: "out = JDict [(ascii ''input'',
                   JList (map2 result_entry (image_files (listdir e)) (map clean_text texts)))]"
    by blast
  have "map2 result_entry (image_files (listdir e)) (map clean_text texts) =
        map2 (\<lambda>f t. JDict [(ascii ''image'', JStr f),
                             (ascii ''text_extracted'', JStr (clean_text t))])
          (image_files (listdir e)) texts"
    by (simp add: zip_map2 split_def result_entry_def)
  with o l distinct_image_files [OF assms(2)] show ?thesis by auto
qed

theorem output_shape_witness:
  "distinct (listdir ok_env) \<and>
   extract_text_from_images ok_env =
     Inr (JDict [(ascii ''input'',
       JList [JDict [(ascii ''image'', JStr (sample_name 200)),
                     (ascii ''text_extracted'', JStr (ascii ''ab cde f''))],
              JDict [(ascii ''image'', JStr (sample_name 201)),
                     (ascii ''text_extracted'', JStr (ascii ''ab cde f''))]])]) \<and>
   distinct (image_files (listdir ok_env))"
proof -
  have d: "distinct (listdir ok_env)"
    by (simp add: ok_env_def listdir_sample distinct_sample_dir)
  have r: "extract_text_from_images ok_env =
     Inr (JDict [(ascii ''input'',
       JList [JDict [(ascii ''image'', JStr (sample_name 200)),
                     (ascii ''text_extracted'', JStr (ascii ''ab cde f''))],
              JDict [(ascii ''image'', JStr (sample_name 201)),
                     (ascii ''text_extracted'', JStr (ascii ''ab cde f''))]])])"
    using run_ok_env by (simp add: result_entry_def)
  from output_shape [OF r d] have "distinct (image_files (listdir ok_env))" by blast
  with d r show ?thesis by blast
qed

text \<open>
  C2, as the code has it. The selection is the one the specification describes, but
  over the fixed window of positions 200 to 399 of the sorted list: the bounds are
  constants of the notebook, not parameters. A run that completes has one entry per
  selected name, in this order. A directory with only b.jpg, a.jpg and c.jpg therefore
  yields an empty result.
\<close>

theorem selection_is_the_fixed_window:
  "image_files names = spec_select 200 400 names \<and>
   (extract_text_from_images e = Inr out \<longrightarrow>
      (\<exists>texts. length texts = length (spec_select 200 400 (listdir e)) \<and>
         out = JDict [(ascii ''input'',
                 JList (map2 result_entry (spec_select 200 400 (listdir e)) texts))]))"
proof (intro conjI impI)
  show "image_files names = spec_select 200 400 names" by (rule image_files_spec_select)
  assume "extract_text_from_images e = Inr out"
  from run_Inr_entries [OF this] obtain texts where
    l: "list_all2 (\<lambda>f t. \<exists>img. preprocess_image e (os_path_join input_folder f) = Inr img \<and>
                                extract_best e img = Inr t) (image_files (listdir e)) texts"
    and o: "out = JDict [(ascii ''input'',
                   JList (map2 result_entry (image_files (listdir e)) (map clean_text texts)))]"
    by blast
  have "length (map clean_text texts) = length (spec_select 200 400 (listdir e))"
    using list_all2_lengthD [OF l] by (simp add: image_files_spec_select)
  then show "\<exists>texts. length texts = length (spec_select 200 400 (listdir e)) \<and>
         out = JDict [(ascii ''input'',
                 JList (map2 result_entry (spec_select 200 400 (listdir e)) texts))]"
    using o unfolding image_files_spec_select by blast
qed

theorem selection_is_the_fixed_window_witness:
  "spec_select 200 400 (listdir ok_env) = [sample_name 200, sample_name 201] \<and>
   (\<exists>texts. length texts = 2 \<and>
      extract_text_from_images ok_env =
        Inr (JDict [(ascii ''input'',
               JList (map2 result_entry [sample_name 200, sample_name 201] texts))]))"
proof -
  have s: "spec_select 200 400 (listdir ok_env) = [sample_name 200, sample_name 201]"
    using selection_is_the_fixed_window [of "listdir ok_env" ok_env undefined]
    by (simp add: ok_env_def listdir_sample image_files_sample_dir)
  have "extract_text_from_images ok_env =
     Inr (JDict [(ascii ''input'',
       JList [result_entry (sample_name 200) (ascii ''ab cde f''),
              result_entry (sample_name 201) (ascii ''ab cde f'')])])"
    by (rule run_ok_env)
  with selection_is_the_fixed_window [of "listdir ok_env" ok_env]
  obtain texts where "length texts = length (spec_select 200 400 (listdir ok_env))"
    and "extract_text_from_images ok_env = Inr (JDict [(ascii ''input'',
                 JList (map2 result_entry (spec_select 200 400 (listdir ok_env)) texts))])"
    by metis
  then have "length texts = 2 \<and> extract_text_from_images ok_env =
        Inr (JDict [(ascii ''input'',
               JList (map2 result_entry [sample_name 200, sample_name 201] texts))])"
    using s by simp
  then show ?thesis using s by blast
qed

theorem selection_window_counterexample:
  "image_files (listdir small_env) = [] \<and>
   spec_select 0 2 (listdir small_env) = [ascii ''a.jpg'', ascii ''b.jpg''] \<and>
   extract_text_from_images small_env = Inr (JDict [(ascii ''input'', JList [])])"
proof -
  have l: "listdir small_env = [ascii ''b.jpg'', ascii ''a.jpg'', ascii ''c.jpg'']"
    by (simp add: small_env_def listdir_sample)
  have 1: "image_files (listdir small_env) = []"
    unfolding l by (simp add: image_files_def py_slice_def)
  have 2: "spec_select 0 2 (listdir small_env) = [ascii ''a.jpg'', ascii ''b.jpg'']"
    unfolding l by (simp add: spec_select_def ascii_def suffix_Cons upt_rec)
  show ?thesis using 1 2 run_small_env by simp
qed

lemma load_entry_result_entry:
  "load_entry (result_entry i t) = Some \<lparr>image_name = i, text_extracted = t\<rparr>"
  by (simp add: result_entry_def ascii_def)

lemma those_load_entries:
  "those (map (\<lambda>r. load_entry (result_entry (image_name r) (text_extracted r))) c) = Some c"
  by (induction c) (simp_all add: load_entry_result_entry)

lemma image_name_map2:
  "length xs = length ys \<Longrightarrow>
   map image_name (map2 (\<lambda>f t. \<lparr>image_name = f, text_extracted = g t\<rparr>) xs ys) = xs"
  by (induction xs ys rule: list_induct2) simp_all

lemma run_output_is_save:
  assumes "extract_text_from_images e = Inr out"
  shows "\<exists>c. out = save c \<and> map image_name c = image_files (listdir e)"
proof -
  from run_Inr_entries [OF assms] obtain texts where
    l: "list_all2 (\<lambda>f t. \<exists>img. preprocess_image e (os_path_join input_folder f) = Inr img \<and>
                                extract_best e img = Inr t) (image_files (listdir e)) texts"
    and o: "out = JDict [(ascii ''input'',
                   JList (map2 result_entry (image_files (listdir e)) (map clean_text texts)))]"
    by blast
  let ?c = "map2 (\<lambda>f t. \<lparr>image_name = f, text_extracted = clean_text t\<rparr>) (image_files (listdir e)) texts"
  have "length (image_files (listdir e)) = length texts" using l by (rule list_all2_lengthD)
  then have "map image_name ?c = image_files (listdir e)" by (rule image_name_map2)
  moreover have "out = save ?c"
    by (simp add: o save_def zip_map2 split_def)
  ultimately show ?thesis by blast
qed

text \<open>
  C9. Loading what was saved gives the corpus back, with its order and its contents:
  \<open>load\<close> applied to \<open>save c\<close> returns \<open>c\<close>, for every corpus.
\<close>

theorem load_save_roundtrip: "load (save c) = Some c"
  by (simp add: save_def comp_def those_load_entries)

end
